theory Spec2Isabelle
  imports Complex_Main "HOL-Library.Sublist" "HOL-Library.Multiset"
    "HOL-Library.Char_ord" "HOL-Library.List_Lexorder"
begin

section \<open>Values, strings and records of the dashboard tables\<close>

text \<open>
  The table component \<^verbatim>\<open>DataTable<T>\<close> of \<^verbatim>\<open>src/app/page.tsx\<close> works on an array
  of plain objects. The field values that occur in the record shapes of the repository are
  strings, numbers, booleans and arrays of strings; a field that is not there reads as
  \<^verbatim>\<open>undefined\<close>. Numbers are modelled on their integer fragment, the safe integers
  (magnitude at most 9007199254740991): the decimal rendering of a non-integer double is floating
  point and is not modelled, and beyond the safe integers a double rounds and prints with an
  exponent. Strings are lists of code units below 256.
\<close>

datatype jsvalue =
    JUndefined
  | JBoolean bool
  | JNumber int
  | JString string
  | JStrArray "string list"

text \<open>An object is the list of its own properties in property order; keys are distinct.\<close>

type_synonym jsobject = "(string \<times> jsvalue) list"

definition object_values :: "jsobject \<Rightarrow> jsvalue list" where
  "object_values item = map snd item"

text \<open>
  Property access \<^verbatim>\<open>item[key]\<close> on an object's own properties: an absent property reads
  as \<^verbatim>\<open>undefined\<close>, and no read raises an error.
\<close>

definition get_field :: "jsobject \<Rightarrow> string \<Rightarrow> jsvalue" where
  "get_field item k = (case map_of item k of None \<Rightarrow> JUndefined | Some v \<Rightarrow> v)"

subsection \<open>\<^verbatim>\<open>String(value)\<close>\<close>

definition digit_char :: "int \<Rightarrow> char" where
  "digit_char d = char_of (48 + d)"

text \<open>The decimal digits of a non-negative integer, most significant first.\<close>

function digits :: "int \<Rightarrow> string" where
  "digits n = (if n < 10 then [digit_char n] else digits (n div 10) @ [digit_char (n mod 10)])"
  by pat_completeness auto
termination
  by (relation "measure nat") auto

declare digits.simps [simp del]

definition number_to_string :: "int \<Rightarrow> string" where
  "number_to_string i = (if i < 0 then CHR ''-'' # digits (- i) else digits i)"

text \<open>\<^verbatim>\<open>Array.prototype.join\<close> with the default separator, a comma.\<close>

fun join_comma :: "string list \<Rightarrow> string" where
  "join_comma [] = []"
| "join_comma [x] = x"
| "join_comma (x # y # ys) = x @ CHR '','' # join_comma (y # ys)"

fun to_string :: "jsvalue \<Rightarrow> string" where
  "to_string JUndefined = ''undefined''"
| "to_string (JBoolean b) = (if b then ''true'' else ''false'')"
| "to_string (JNumber n) = number_to_string n"
| "to_string (JString s) = s"
| "to_string (JStrArray xs) = join_comma xs"

subsection \<open>\<^verbatim>\<open>toLowerCase\<close> and \<^verbatim>\<open>includes\<close>\<close>

text \<open>
  Among the code units below 256 the upper-case letters are \<^verbatim>\<open>A\<close> to \<^verbatim>\<open>Z\<close> and the
  Latin-1 letters 192 to 222 without the multiplication sign 215; each has its lower-case
  form 32 places on.
\<close>

definition to_lower_char :: "char \<Rightarrow> char" where
  "to_lower_char c =
     (let n = (of_char c :: int) in
      if (65 \<le> n \<and> n \<le> 90) \<or> (192 \<le> n \<and> n \<le> 222 \<and> n \<noteq> 215) then char_of (n + 32)
      else c)"

definition toLowerCase :: "string \<Rightarrow> string" where
  "toLowerCase s = map to_lower_char s"

fun starts_with :: "string \<Rightarrow> string \<Rightarrow> bool" where
  "starts_with s [] = True"
| "starts_with [] (c # cs) = False"
| "starts_with (x # xs) (c # cs) = (x = c \<and> starts_with xs cs)"

text \<open>
  \<^verbatim>\<open>s.includes(t)\<close>: some position of \<open>s\<close> (its end included) starts an occurrence
  of \<open>t\<close>.
\<close>

fun includes_str :: "string \<Rightarrow> string \<Rightarrow> bool" where
  "includes_str [] t = (t = [])"
| "includes_str (x # xs) t = (starts_with (x # xs) t \<or> includes_str xs t)"

subsection \<open>The relational operators on values\<close>

text \<open>Strings compare by code unit, position by position.\<close>

fun str_lt :: "string \<Rightarrow> string \<Rightarrow> bool" where
  "str_lt [] [] = False"
| "str_lt [] (y # ys) = True"
| "str_lt (x # xs) [] = False"
| "str_lt (x # xs) (y # ys) =
     ((of_char x :: int) < of_char y \<or> (x = y \<and> str_lt xs ys))"

definition is_space :: "char \<Rightarrow> bool" where
  "is_space c = ((of_char c :: int) \<in> {9, 10, 11, 12, 13, 32, 160})"

definition is_digit :: "char \<Rightarrow> bool" where
  "is_digit c = (48 \<le> (of_char c :: int) \<and> (of_char c :: int) \<le> 57)"

definition trim :: "string \<Rightarrow> string" where
  "trim s = rev (dropWhile is_space (rev (dropWhile is_space s)))"

definition digits_value :: "string \<Rightarrow> int" where
  "digits_value ds = foldl (\<lambda>acc c. 10 * acc + (of_char c - 48)) 0 ds"

text \<open>
  \<^verbatim>\<open>ToNumber\<close> of a string, on the integer fragment: surrounding white space is
  dropped, the empty string is 0, an optionally signed run of decimal digits is its value,
  and every other string is \<^verbatim>\<open>NaN\<close>, written \<open>None\<close>. Numeric literals of other
  forms (a fraction, an exponent, a radix prefix, \<^verbatim>\<open>Infinity\<close>) are outside the fragment:
  no statement below is about a column that compares such a string with a number.
\<close>

definition string_to_number :: "string \<Rightarrow> int option" where
  "string_to_number s =
     (case trim s of
        [] \<Rightarrow> Some 0
      | c # cs \<Rightarrow>
          if c = CHR ''-'' \<and> cs \<noteq> [] \<and> list_all is_digit cs then Some (- digits_value cs)
          else if c = CHR ''+'' \<and> cs \<noteq> [] \<and> list_all is_digit cs then Some (digits_value cs)
          else if list_all is_digit (c # cs) then Some (digits_value (c # cs))
          else None)"

text \<open>\<^verbatim>\<open>ToPrimitive\<close>: an array becomes the string of its elements joined by commas.\<close>

fun to_primitive :: "jsvalue \<Rightarrow> jsvalue" where
  "to_primitive (JStrArray xs) = JString (join_comma xs)"
| "to_primitive v = v"

fun to_number :: "jsvalue \<Rightarrow> int option" where
  "to_number JUndefined = None"
| "to_number (JBoolean b) = Some (if b then 1 else 0)"
| "to_number (JNumber n) = Some n"
| "to_number (JString s) = string_to_number s"
| "to_number (JStrArray xs) = string_to_number (join_comma xs)"

text \<open>
  \<^verbatim>\<open>a < b\<close>: two strings compare as strings; otherwise both sides become numbers, and
  a comparison with \<^verbatim>\<open>NaN\<close> is false.
\<close>

definition js_lt :: "jsvalue \<Rightarrow> jsvalue \<Rightarrow> bool" where
  "js_lt a b =
     (case (to_primitive a, to_primitive b) of
        (JString x, JString y) \<Rightarrow> str_lt x y
      | (x, y) \<Rightarrow>
          (case (to_number x, to_number y) of
             (Some m, Some n) \<Rightarrow> m < n
           | _ \<Rightarrow> False))"

definition js_gt :: "jsvalue \<Rightarrow> jsvalue \<Rightarrow> bool" where
  "js_gt a b = js_lt b a"

section \<open>The table component\<close>

text \<open>
  The properties of \<^verbatim>\<open>DataTable\<close> that its logic reads (the column descriptors only
  feed the rendering), and the four pieces of state it keeps with \<^verbatim>\<open>useState\<close>.
\<close>

datatype sort_direction = Asc | Desc

record sort_config =
  key :: string
  direction :: sort_direction

record table_props =
  data :: "jsobject list"
  pagination :: bool
  searchable :: bool
  sortable :: bool

record view_state =
  page :: int
  rowsPerPage :: int
  searchTerm :: string
  sortConfig :: "sort_config option"

text \<open>
  The destructuring defaults \<^verbatim>\<open>pagination = true, searchable = true, sortable = true\<close>.
  No call site of the repository passes any of the three flags.
\<close>

definition defaultProps :: "jsobject list \<Rightarrow> table_props" where
  "defaultProps d = \<lparr>data = d, pagination = True, searchable = True, sortable = True\<rparr>"

definition initial_state :: view_state where
  "initial_state = \<lparr>page = 0, rowsPerPage = 10, searchTerm = [], sortConfig = None\<rparr>"

subsection \<open>Filtering\<close>

definition matches_search :: "string \<Rightarrow> jsobject \<Rightarrow> bool" where
  "matches_search term item =
     list_ex (\<lambda>v. includes_str (toLowerCase (to_string v)) (toLowerCase term))
       (object_values item)"

definition filteredData :: "table_props \<Rightarrow> view_state \<Rightarrow> jsobject list" where
  "filteredData props st =
     (if searchable props then filter (matches_search (searchTerm st)) (data props)
      else data props)"

subsection \<open>Sorting\<close>

definition comparator :: "sort_config \<Rightarrow> jsobject \<Rightarrow> jsobject \<Rightarrow> int" where
  "comparator cfg a b =
     (let aValue = get_field a (key cfg); bValue = get_field b (key cfg) in
      if js_lt aValue bValue then (if direction cfg = Asc then - 1 else 1)
      else if js_gt aValue bValue then (if direction cfg = Asc then 1 else - 1)
      else 0)"

text \<open>
  What \<^verbatim>\<open>Array.prototype.sort\<close> returns depends on the comparator. ECMAScript calls a
  comparator consistent on the elements of an array when, on them, it is reflexive and
  symmetric in returning 0, and returning 0, returning a negative number and returning a
  positive number are each transitive.
\<close>

definition consistent_comparator :: "('a \<Rightarrow> 'a \<Rightarrow> int) \<Rightarrow> 'a list \<Rightarrow> bool" where
  "consistent_comparator cmp xs \<longleftrightarrow>
     (\<forall>a \<in> set xs. cmp a a = 0) \<and>
     (\<forall>a \<in> set xs. \<forall>b \<in> set xs. cmp a b = 0 \<longrightarrow> cmp b a = 0) \<and>
     (\<forall>a \<in> set xs. \<forall>b \<in> set xs. \<forall>c \<in> set xs.
        (cmp a b = 0 \<and> cmp b c = 0 \<longrightarrow> cmp a c = 0) \<and>
        (cmp a b < 0 \<and> cmp b c < 0 \<longrightarrow> cmp a c < 0) \<and>
        (cmp a b > 0 \<and> cmp b c > 0 \<longrightarrow> cmp a c > 0))"

text \<open>
  The arrangements \<^verbatim>\<open>sort\<close> may leave: always a rearrangement of the elements; for a
  consistent comparator the rearrangement is ordered by the comparator and stable (every
  group of elements between which the comparator returns 0 keeps its order); for any other
  comparator the order is left to the engine.
\<close>

definition sort_outcome :: "('a \<Rightarrow> 'a \<Rightarrow> int) \<Rightarrow> 'a list \<Rightarrow> 'a list \<Rightarrow> bool" where
  "sort_outcome cmp xs ys \<longleftrightarrow>
     mset ys = mset xs \<and>
     (consistent_comparator cmp xs \<longrightarrow>
        sorted_wrt (\<lambda>a b. cmp a b \<le> 0) ys \<and>
        (\<forall>P. (\<forall>a \<in> set xs. \<forall>b \<in> set xs. P a \<longrightarrow> P b \<longrightarrow> cmp a b = 0)
               \<longrightarrow> filter P ys = filter P xs))"

text \<open>
  In the model the stable insertion sort stands for the call of \<^verbatim>\<open>sort\<close>: an element is
  placed in front of the first element of the sorted rest that it does not compare greater
  than. For a consistent comparator this is the ordered and stable arrangement the language
  requires. For a comparator that is not consistent it is one of the rearrangements the
  language permits and an engine may leave another, so what is stated below about the order
  of the sorted records is stated for consistent comparators.
\<close>

fun insert_by :: "('a \<Rightarrow> 'a \<Rightarrow> int) \<Rightarrow> 'a \<Rightarrow> 'a list \<Rightarrow> 'a list" where
  "insert_by cmp x [] = [x]"
| "insert_by cmp x (y # ys) = (if cmp x y \<le> 0 then x # y # ys else y # insert_by cmp x ys)"

definition array_sort :: "('a \<Rightarrow> 'a \<Rightarrow> int) \<Rightarrow> 'a list \<Rightarrow> 'a list" where
  "array_sort cmp xs = foldr (insert_by cmp) xs []"

definition sortedData :: "table_props \<Rightarrow> view_state \<Rightarrow> jsobject list" where
  "sortedData props st =
     (if sortable props then
        (case sortConfig st of
           Some cfg \<Rightarrow> array_sort (comparator cfg) (filteredData props st)
         | None \<Rightarrow> filteredData props st)
      else filteredData props st)"

subsection \<open>Paging\<close>

text \<open>
  \<^verbatim>\<open>Array.prototype.slice(start, end)\<close>: a negative index counts from the end, every
  index is clamped into the array, and an empty range gives the empty array.
\<close>

definition relative_index :: "int \<Rightarrow> int \<Rightarrow> int" where
  "relative_index len i = (if i < 0 then max (len + i) 0 else min i len)"

definition array_slice :: "'a list \<Rightarrow> int \<Rightarrow> int \<Rightarrow> 'a list" where
  "array_slice xs start fin =
     (let len = int (length xs);
          k = relative_index len start;
          final = relative_index len fin
      in take (nat (final - k)) (drop (nat k) xs))"

definition paginatedData :: "table_props \<Rightarrow> view_state \<Rightarrow> jsobject list" where
  "paginatedData props st =
     (if pagination props then
        array_slice (sortedData props st)
          (page st * rowsPerPage st) (page st * rowsPerPage st + rowsPerPage st)
      else sortedData props st)"

text \<open>
  \<^verbatim>\<open>Math.ceil(filteredData.length / rowsPerPage)\<close>, the page count of the pagination
  bar. A division by zero gives \<^verbatim>\<open>NaN\<close> or \<^verbatim>\<open>Infinity\<close>, written \<open>None\<close>.
\<close>

definition math_ceil_div :: "int \<Rightarrow> int \<Rightarrow> int option" where
  "math_ceil_div n d = (if d = 0 then None else Some (- ((- n) div d)))"

definition totalPages :: "table_props \<Rightarrow> view_state \<Rightarrow> int option" where
  "totalPages props st = math_ceil_div (int (length (filteredData props st))) (rowsPerPage st)"

subsection \<open>Event handlers\<close>

text \<open>\<^verbatim>\<open>handleSort\<close>, the click on a column header.\<close>

definition handleSort :: "table_props \<Rightarrow> view_state \<Rightarrow> string \<Rightarrow> view_state" where
  "handleSort props st k =
     (if \<not> sortable props then st
      else
        let dir = (case sortConfig st of
                     Some c \<Rightarrow> if key c = k \<and> direction c = Asc then Desc else Asc
                   | None \<Rightarrow> Asc)
        in st\<lparr>sortConfig := Some \<lparr>key = k, direction = dir\<rparr>\<rparr>)"

text \<open>The search box: \<^verbatim>\<open>onChange={(e) => setSearchTerm(e.target.value)}\<close>.\<close>

definition handleSearchChange :: "view_state \<Rightarrow> string \<Rightarrow> view_state" where
  "handleSearchChange st text = st\<lparr>searchTerm := text\<rparr>"

text \<open>
  The rows-per-page selector:
  \<^verbatim>\<open>setRowsPerPage(Number(e.target.value)); setPage(0)\<close>, over the options it
  offers. The handler receives the number the selected option converts to.
\<close>

definition rowsPerPageOptions :: "int list" where
  "rowsPerPageOptions = [5, 10, 25, 50, 100]"

definition handleRowsPerPageChange :: "view_state \<Rightarrow> int \<Rightarrow> view_state" where
  "handleRowsPerPageChange st n = (st\<lparr>rowsPerPage := n\<rparr>)\<lparr>page := 0\<rparr>"

text \<open>Every button of the pagination bar calls \<^verbatim>\<open>setPage\<close> with a page number.\<close>

definition setPage :: "view_state \<Rightarrow> int \<Rightarrow> view_state" where
  "setPage st n = st\<lparr>page := n\<rparr>"

subsection \<open>The three stages as the specification words them\<close>

text \<open>
  A record is a search hit when the lower-cased string form of one of its field values
  contains the lower-cased search text as a contiguous substring.
\<close>

definition search_hit :: "string \<Rightarrow> jsobject \<Rightarrow> bool" where
  "search_hit text r =
     (\<exists>v \<in> set (object_values r). sublist (toLowerCase text) (toLowerCase (to_string v)))"

text \<open>
  The sort by a key, ascending or descending, in which records with equal keys keep the
  order they have in the input.
\<close>

definition stable_sort_by :: "('a \<Rightarrow> 'k::linorder) \<Rightarrow> sort_direction \<Rightarrow> 'a list \<Rightarrow> 'a list" where
  "stable_sort_by f d xs = (case d of Asc \<Rightarrow> sort_key f xs | Desc \<Rightarrow> rev (sort_key f (rev xs)))"

text \<open>
  The specification orders numbers naturally and strings lexicographically. A column of
  numbers, a column of strings and a column that no record has are the columns for which
  its words fix the order; the keys are the numbers and the strings themselves.
\<close>

definition number_column :: "string \<Rightarrow> jsobject list \<Rightarrow> bool" where
  "number_column k xs =
     list_all (\<lambda>r. case get_field r k of JNumber n \<Rightarrow> True | _ \<Rightarrow> False) xs"

definition string_column :: "string \<Rightarrow> jsobject list \<Rightarrow> bool" where
  "string_column k xs =
     list_all (\<lambda>r. case get_field r k of JString s \<Rightarrow> True | _ \<Rightarrow> False) xs"


definition number_key :: "string \<Rightarrow> jsobject \<Rightarrow> int" where
  "number_key k r = (case get_field r k of JNumber n \<Rightarrow> n | _ \<Rightarrow> 0)"

definition string_key :: "string \<Rightarrow> jsobject \<Rightarrow> string" where
  "string_key k r = (case get_field r k of JString s \<Rightarrow> s | _ \<Rightarrow> [])"




section \<open>The component on a store of arrays\<close>

text \<open>
  To see which arrays a render writes, the arrays live in a store: an array is named by its
  address, \<^verbatim>\<open>filter\<close>, \<^verbatim>\<open>slice\<close> and the spread \<^verbatim>\<open>[...a]\<close> allocate a new array, and
  \<^verbatim>\<open>sort\<close> overwrites the array it is called on and returns that same array. The
  records themselves are never written to, so an array holds them as values.
\<close>

type_synonym store = "jsobject list list"

definition alloc :: "store \<Rightarrow> jsobject list \<Rightarrow> store \<times> nat" where
  "alloc h xs = (h @ [xs], length h)"

definition store_filter :: "store \<Rightarrow> nat \<Rightarrow> (jsobject \<Rightarrow> bool) \<Rightarrow> store \<times> nat" where
  "store_filter h a P = alloc h (filter P (h ! a))"

definition store_spread :: "store \<Rightarrow> nat \<Rightarrow> store \<times> nat" where
  "store_spread h a = alloc h (h ! a)"

definition store_sort :: "store \<Rightarrow> nat \<Rightarrow> (jsobject \<Rightarrow> jsobject \<Rightarrow> int) \<Rightarrow> store \<times> nat" where
  "store_sort h a cmp = (h[a := array_sort cmp (h ! a)], a)"

definition store_slice :: "store \<Rightarrow> nat \<Rightarrow> int \<Rightarrow> int \<Rightarrow> store \<times> nat" where
  "store_slice h a start fin = alloc h (array_slice (h ! a) start fin)"

text \<open>
  One render of the component: the flags are read from the properties, the \<^verbatim>\<open>data\<close>
  array is the one at address \<open>d\<close>. The result is the store after the render and the
  address of \<^verbatim>\<open>paginatedData\<close>.
\<close>

definition render :: "table_props \<Rightarrow> view_state \<Rightarrow> store \<Rightarrow> nat \<Rightarrow> store \<times> nat" where
  "render props st h d =
     (let (h1, filtered) =
            (if searchable props then store_filter h d (matches_search (searchTerm st))
             else (h, d));
          (h2, sorted) =
            (if sortable props then
               (case sortConfig st of
                  Some cfg \<Rightarrow>
                    (let (h', copy) = store_spread h1 filtered
                     in store_sort h' copy (comparator cfg))
                | None \<Rightarrow> (h1, filtered))
             else (h1, filtered))
      in if pagination props then
           store_slice h2 sorted
             (page st * rowsPerPage st) (page st * rowsPerPage st + rowsPerPage st)
         else (h2, sorted))"

text \<open>The user's operations, and a session: the first render, then a render after each.\<close>

datatype event =
    SearchInput string
  | HeaderClick string
  | PageButton int
  | RowsSelect int

fun handle_event :: "table_props \<Rightarrow> view_state \<Rightarrow> event \<Rightarrow> view_state" where
  "handle_event props st (SearchInput text) = handleSearchChange st text"
| "handle_event props st (HeaderClick k) = handleSort props st k"
| "handle_event props st (PageButton n) = setPage st n"
| "handle_event props st (RowsSelect n) = handleRowsPerPageChange st n"

fun run_events :: "table_props \<Rightarrow> nat \<Rightarrow> view_state \<times> store \<Rightarrow> event list \<Rightarrow> view_state \<times> store" where
  "run_events props d (st, h) [] = (st, h)"
| "run_events props d (st, h) (ev # evs) =
     (let st' = handle_event props st ev
      in run_events props d (st', fst (render props st' h d)) evs)"

definition session :: "table_props \<Rightarrow> store \<Rightarrow> nat \<Rightarrow> event list \<Rightarrow> view_state \<times> store" where
  "session props h d evs =
     run_events props d (initial_state, fst (render props initial_state h d)) evs"

section \<open>Distributions\<close>

text \<open>
  Modelled from the spec: the function \<^verbatim>\<open>distribute\<close> of the specification's
  Aggregator. The sources hold no such function: every distribution shown by the
  dashboard (\<^verbatim>\<open>ptcPercentageDistribution\<close>, \<^verbatim>\<open>runCountDistribution\<close>, ...) is a
  literal array of \<^verbatim>\<open>{name, value}\<close> items. The model follows the specification: one
  bucket per label of the bucket order, in that order, counting the records that the
  classifier maps to the label; a label outside the bucket order is the error
  \<^verbatim>\<open>UnknownBucketLabel\<close>.
\<close>

datatype error = UnknownBucketLabel string

record bucket =
  label :: string
  count :: nat

definition distribute ::
  "'r list \<Rightarrow> ('r \<Rightarrow> string) \<Rightarrow> string list \<Rightarrow> error + bucket list" where
  "distribute records classify bucketOrder =
     (case filter (\<lambda>r. classify r \<notin> set bucketOrder) records of
        r # _ \<Rightarrow> Inl (UnknownBucketLabel (classify r))
      | [] \<Rightarrow>
          Inr (map (\<lambda>l. \<lparr>label = l, count = length (filter (\<lambda>r. classify r = l) records)\<rparr>)
                 bucketOrder))"

section \<open>Sample data\<close>

text \<open>
  Locomotive records as \<^verbatim>\<open>fetchData\<close> builds them, \<^verbatim>\<open>MARC 7801\<close> onwards, with the
  integer-valued fields and fixed values in place of the random ones; and an event record
  of the map table, which has a latitude and a longitude but no field
  \<^verbatim>\<open>coordinates\<close>.
\<close>

definition locomotive :: "int \<Rightarrow> jsobject" where
  "locomotive i =
     [(''id'', JString (''MARC '' @ number_to_string (7800 + i))),
      (''runs'', JNumber (i mod 3 + 1)),
      (''faults'', JNumber ((7 * i) mod 100))]"

definition allLocomotives :: "jsobject list" where
  "allLocomotives = map locomotive [1..48]"

definition geo_event :: "int \<Rightarrow> jsobject" where
  "geo_event i =
     [(''id'', JNumber i),
      (''latitude'', JNumber 39),
      (''longitude'', JNumber (- 76)),
      (''eventType'', JString ''Fault''),
      (''locomotive'', JString (''MARC '' @ number_to_string (7800 + i)))]"


section \<open>Properties\<close>

subsection \<open>Substring search and slicing\<close>

lemma starts_with_prefix: "starts_with s t \<longleftrightarrow> prefix t s"
  by (induction s t rule: starts_with.induct) auto

lemma includes_str_sublist: "includes_str s t \<longleftrightarrow> sublist t s"
  by (induction s) (auto simp: starts_with_prefix sublist_Cons_right)

lemma matches_search_hit: "matches_search t = search_hit t"
  by (rule ext) (simp add: matches_search_def search_hit_def list_ex_iff includes_str_sublist)

lemma search_hit_empty: "search_hit [] r \<longleftrightarrow> object_values r \<noteq> []"
  by (cases r) (auto simp: search_hit_def toLowerCase_def object_values_def)

lemma relative_index_nat: "relative_index (int len) (int i) = int (min i len)"
  by (simp add: relative_index_def)

lemma array_slice_nat: "array_slice xs (int a) (int b) = take (b - a) (drop a xs)"
proof (cases "a \<le> length xs")
  case True
  then show ?thesis
    by (cases "b \<le> length xs")
       (simp_all add: array_slice_def relative_index_nat Let_def min_def nat_diff_distrib')
next
  case False
  then show ?thesis
    by (simp add: array_slice_def relative_index_nat Let_def min_def)
qed

lemma array_slice_page:
  "array_slice xs (int p * int n) (int p * int n + int n) = take n (drop (p * n) xs)"
proof -
  have "array_slice xs (int (p * n)) (int (p * n + n)) = take n (drop (p * n) xs)"
    by (simp only: array_slice_nat add_diff_cancel_left')
  then show ?thesis by simp
qed



subsection \<open>The component with its default flags\<close>

lemma filteredData_default:
  "filteredData (defaultProps records) st = filter (search_hit (searchTerm st)) records"
  by (simp add: filteredData_def defaultProps_def matches_search_hit)


lemma paginatedData_default:
  "paginatedData (defaultProps records) st =
     array_slice (sortedData (defaultProps records) st)
       (page st * rowsPerPage st) (page st * rowsPerPage st + rowsPerPage st)"
  by (simp add: paginatedData_def defaultProps_def)

subsection \<open>The sort keeps ties in place\<close>

lemma insert_by_filter:
  assumes "\<forall>b \<in> set ys. P x \<longrightarrow> P b \<longrightarrow> cmp x b = 0"
  shows "filter P (insert_by cmp x ys) = filter P (x # ys)"
  using assms by (induction ys) auto

lemma set_insert_by: "set (insert_by cmp x ys) = insert x (set ys)"
  by (induction ys) auto

lemma length_insert_by: "length (insert_by cmp x ys) = Suc (length ys)"
  by (induction ys) auto

lemma set_array_sort: "set (array_sort cmp xs) = set xs"
  by (induction xs) (simp_all add: array_sort_def set_insert_by)

lemma length_array_sort: "length (array_sort cmp xs) = length xs"
  by (induction xs) (simp_all add: array_sort_def length_insert_by)

lemma array_sort_Cons: "array_sort cmp (x # xs) = insert_by cmp x (array_sort cmp xs)"
  by (simp add: array_sort_def)

lemma array_sort_stable:
  assumes "\<forall>a \<in> set xs. \<forall>b \<in> set xs. P a \<longrightarrow> P b \<longrightarrow> cmp a b = 0"
  shows "filter P (array_sort cmp xs) = filter P xs"
  using assms
proof (induction xs)
  case Nil
  then show ?case by (simp add: array_sort_def)
next
  case (Cons x xs)
  have "filter P (insert_by cmp x (array_sort cmp xs)) = filter P (x # array_sort cmp xs)"
    using Cons.prems by (intro insert_by_filter) (simp add: set_array_sort)
  moreover have "filter P (array_sort cmp xs) = filter P xs"
    using Cons by simp
  ultimately show ?case by (simp add: array_sort_Cons)
qed

lemma str_lt_irrefl: "\<not> str_lt s s"
  by (induction s) auto

lemma js_lt_irrefl: "\<not> js_lt v v"
  by (auto simp: js_lt_def str_lt_irrefl split: jsvalue.splits option.splits)

lemma comparator_tie:
  "get_field a (key cfg) = get_field b (key cfg) \<Longrightarrow> comparator cfg a b = 0"
  by (simp add: comparator_def js_gt_def js_lt_irrefl)

subsection \<open>The sort orders and permutes\<close>

lemma insert_by_sorted:
  assumes tr: "\<forall>a \<in> S. \<forall>b \<in> S. \<forall>c \<in> S. cmp a b \<le> 0 \<longrightarrow> cmp b c \<le> 0 \<longrightarrow> cmp a c \<le> 0"
    and tot: "\<forall>a \<in> S. \<forall>b \<in> S. cmp a b \<le> 0 \<or> cmp b a \<le> 0"
    and "x \<in> S" "set ys \<subseteq> S"
    and "sorted_wrt (\<lambda>a b. cmp a b \<le> 0) ys"
  shows "sorted_wrt (\<lambda>a b. cmp a b \<le> 0) (insert_by cmp x ys)"
  using assms(3-)
proof (induction ys)
  case Nil
  then show ?case by simp
next
  case (Cons y ys)
  show ?case
  proof (cases "cmp x y \<le> 0")
    case True
    have "\<forall>z \<in> set ys. cmp x z \<le> 0"
    proof
      fix z assume z: "z \<in> set ys"
      with Cons.prems have "cmp y z \<le> 0" by simp
      moreover have "x \<in> S" "y \<in> S" "z \<in> S" using z Cons.prems by auto
      ultimately show "cmp x z \<le> 0" using True tr by blast
    qed
    with True Cons.prems show ?thesis by simp
  next
    case False
    have "x \<in> S" "y \<in> S" using Cons.prems by auto
    with tot False have yx: "cmp y x \<le> 0" by blast
    have "sorted_wrt (\<lambda>a b. cmp a b \<le> 0) (insert_by cmp x ys)"
      using Cons by simp
    with False yx Cons.prems show ?thesis by (simp add: set_insert_by)
  qed
qed

lemma array_sort_sorted:
  assumes tr: "\<forall>a \<in> set xs. \<forall>b \<in> set xs. \<forall>c \<in> set xs.
                 cmp a b \<le> 0 \<longrightarrow> cmp b c \<le> 0 \<longrightarrow> cmp a c \<le> 0"
    and tot: "\<forall>a \<in> set xs. \<forall>b \<in> set xs. cmp a b \<le> 0 \<or> cmp b a \<le> 0"
  shows "sorted_wrt (\<lambda>a b. cmp a b \<le> 0) (array_sort cmp xs)"
proof -
  have "set ys \<subseteq> set xs \<Longrightarrow> sorted_wrt (\<lambda>a b. cmp a b \<le> 0) (array_sort cmp ys)" for ys
  proof (induction ys)
    case Nil
    then show ?case by (simp add: array_sort_def)
  next
    case (Cons y ys)
    then have srt: "sorted_wrt (\<lambda>a b. cmp a b \<le> 0) (array_sort cmp ys)" by simp
    have y: "y \<in> set xs" and ys: "set (array_sort cmp ys) \<subseteq> set xs"
      using Cons.prems by (simp_all add: set_array_sort)
    have "sorted_wrt (\<lambda>a b. cmp a b \<le> 0) (insert_by cmp y (array_sort cmp ys))"
      by (rule insert_by_sorted [OF tr tot y ys srt])
    then show ?case by (simp add: array_sort_Cons)
  qed
  then show ?thesis by simp
qed

subsection \<open>The sort and the stable sort by a key\<close>

lemma mset_insert_by: "mset (insert_by cmp x ys) = add_mset x (mset ys)"
  by (induction ys) auto

lemma mset_array_sort: "mset (array_sort cmp xs) = mset xs"
  by (induction xs) (simp_all add: array_sort_def mset_insert_by)

lemma str_lt_less: "str_lt s t \<longleftrightarrow> s < t"
proof (induction s t rule: str_lt.induct)
  case (4 x xs y ys)
  have "(of_char x :: int) < of_char y \<longleftrightarrow> x < y"
    by (simp add: less_char_def flip: of_nat_of_char [where ?'a = int])
  with 4 show ?case by simp
qed simp_all

lemma insert_by_insort_key:
  assumes "\<forall>y \<in> set ys. cmp x y \<le> 0 \<longleftrightarrow> f x \<le> f y"
  shows "insert_by cmp x ys = insort_key f x ys"
  using assms by (induction ys) auto

lemma array_sort_sort_key:
  assumes "\<forall>a \<in> set xs. \<forall>b \<in> set xs. cmp a b \<le> 0 \<longleftrightarrow> f a \<le> f b"
  shows "array_sort cmp xs = sort_key f xs"
  using assms
proof (induction xs)
  case Nil
  then show ?case by (simp add: array_sort_def)
next
  case (Cons x xs)
  then have ih: "array_sort cmp xs = sort_key f xs" by simp
  have "insert_by cmp x (sort_key f xs) = insort_key f x (sort_key f xs)"
    using Cons.prems by (intro insert_by_insort_key) simp
  with ih show ?case by (simp add: array_sort_Cons)
qed

lemma array_sort_rev_sort_key:
  assumes le: "\<forall>a \<in> set xs. \<forall>b \<in> set xs. cmp a b \<le> 0 \<longleftrightarrow> f b \<le> f a"
    and tie: "\<forall>a \<in> set xs. \<forall>b \<in> set xs. f a = f b \<longrightarrow> cmp a b = 0"
  shows "array_sort cmp xs = rev (sort_key f (rev xs))"
proof -
  let ?A = "array_sort cmp xs"
  have srt: "sorted_wrt (\<lambda>a b. cmp a b \<le> 0) ?A"
    using le by (intro array_sort_sorted) (auto intro: order_trans)
  then have "sorted_wrt (\<lambda>a b. f b \<le> f a) ?A"
    by (rule sorted_wrt_mono_rel [rotated]) (simp add: le set_array_sort)
  then have s: "sorted (map f (rev ?A))"
    by (simp add: sorted_wrt_rev sorted_wrt_map flip: rev_map)
  have m: "mset (rev ?A) = mset (rev xs)" by (simp add: mset_array_sort)
  have st: "filter (\<lambda>x. f k = f x) (rev ?A) = filter (\<lambda>x. f k = f x) (rev xs)" for k
  proof -
    have "filter (\<lambda>x. f k = f x) ?A = filter (\<lambda>x. f k = f x) xs"
      using tie by (intro array_sort_stable) auto
    then show ?thesis by (simp add: rev_filter [symmetric])
  qed
  have "sort_key f (rev xs) = rev ?A"
    by (rule properties_for_sort_key [OF m st s])
  then show ?thesis by simp
qed

lemma stable_sort_by_mset: "mset (stable_sort_by f d xs) = mset xs"
  by (cases d) (simp_all add: stable_sort_by_def)

lemma stable_sort_by_ordered:
  "sorted (map f (stable_sort_by f Asc xs))"
  "sorted (rev (map f (stable_sort_by f Desc xs)))"
  by (simp_all add: stable_sort_by_def rev_map)

lemma stable_sort_by_stable:
  "filter (\<lambda>x. f x = v) (stable_sort_by f d xs) = filter (\<lambda>x. f x = v) xs"
proof (cases d)
  case Asc
  then show ?thesis by (simp add: stable_sort_by_def sort_key_stable)
next
  case Desc
  have "filter (\<lambda>x. f x = v) (rev (sort_key f (rev xs))) = rev (filter (\<lambda>x. f x = v) (sort_key f (rev xs)))"
    by (simp add: rev_filter)
  also have "\<dots> = rev (filter (\<lambda>x. f x = v) (rev xs))" by (simp add: sort_key_stable)
  also have "\<dots> = filter (\<lambda>x. f x = v) xs" by (simp add: rev_filter)
  finally show ?thesis using Desc by (simp add: stable_sort_by_def)
qed

lemma get_field_absent:
  assumes "k \<notin> fst ` set r"
  shows "get_field r k = JUndefined"
proof -
  from assms have "map_of r k = None" by (simp add: map_of_eq_None_iff)
  then show ?thesis by (simp add: get_field_def)
qed

lemma number_columnD: "number_column k xs \<Longrightarrow> r \<in> set xs \<Longrightarrow> get_field r k = JNumber (number_key k r)"
  by (auto simp: number_column_def number_key_def list_all_iff split: jsvalue.splits)

lemma string_columnD: "string_column k xs \<Longrightarrow> r \<in> set xs \<Longrightarrow> get_field r k = JString (string_key k r)"
  by (auto simp: string_column_def string_key_def list_all_iff split: jsvalue.splits)

lemma comparator_number_values:
  assumes "get_field a k = JNumber m" "get_field b k = JNumber n"
  shows "comparator \<lparr>key = k, direction = d\<rparr> a b =
           (if m < n then (if d = Asc then - 1 else 1)
            else if n < m then (if d = Asc then 1 else - 1) else 0)"
  using assms by (simp add: comparator_def js_lt_def js_gt_def)

lemma comparator_string_values:
  assumes "get_field a k = JString s" "get_field b k = JString t"
  shows "comparator \<lparr>key = k, direction = d\<rparr> a b =
           (if s < t then (if d = Asc then - 1 else 1)
            else if t < s then (if d = Asc then 1 else - 1) else 0)"
  using assms by (simp add: comparator_def js_lt_def js_gt_def str_lt_less)

lemma comparator_keyed:
  fixes f :: "jsobject \<Rightarrow> 'k::linorder"
  assumes "\<forall>a \<in> set xs. \<forall>b \<in> set xs. comparator \<lparr>key = k, direction = d\<rparr> a b =
           (if f a < f b then (if d = Asc then - 1 else 1)
            else if f b < f a then (if d = Asc then 1 else - 1) else 0)"
  shows "array_sort (comparator \<lparr>key = k, direction = d\<rparr>) xs = stable_sort_by f d xs"
    and "consistent_comparator (comparator \<lparr>key = k, direction = d\<rparr>) xs"
proof -
  let ?cmp = "comparator \<lparr>key = k, direction = d\<rparr>"
  show "array_sort ?cmp xs = stable_sort_by f d xs"
  proof (cases d)
    case Asc
    have "array_sort ?cmp xs = sort_key f xs"
      using assms Asc by (intro array_sort_sort_key) (auto simp: not_less)
    with Asc show ?thesis by (simp add: stable_sort_by_def)
  next
    case Desc
    have "array_sort ?cmp xs = rev (sort_key f (rev xs))"
      using assms Desc by (intro array_sort_rev_sort_key) (auto simp: not_less)
    with Desc show ?thesis by (simp add: stable_sort_by_def)
  qed
  show "consistent_comparator ?cmp xs"
    unfolding consistent_comparator_def
  proof (intro conjI ballI)
    fix a assume "a \<in> set xs"
    with assms show "?cmp a a = 0" by simp
  next
    fix a b assume "a \<in> set xs" "b \<in> set xs"
    with assms show "?cmp a b = 0 \<longrightarrow> ?cmp b a = 0" by (auto split: if_splits)
  next
    fix a b c assume "a \<in> set xs" "b \<in> set xs" "c \<in> set xs"
    with assms have e: "?cmp a b = (if f a < f b then (if d = Asc then - 1 else 1)
            else if f b < f a then (if d = Asc then 1 else - 1) else 0)"
      "?cmp b c = (if f b < f c then (if d = Asc then - 1 else 1)
            else if f c < f b then (if d = Asc then 1 else - 1) else 0)"
      "?cmp a c = (if f a < f c then (if d = Asc then - 1 else 1)
            else if f c < f a then (if d = Asc then 1 else - 1) else 0)"
      by simp_all
    show "?cmp a b = 0 \<and> ?cmp b c = 0 \<longrightarrow> ?cmp a c = 0"
      unfolding e by (cases d) (auto split: if_splits)
    show "?cmp a b < 0 \<and> ?cmp b c < 0 \<longrightarrow> ?cmp a c < 0"
      unfolding e by (cases d) (auto split: if_splits)
    show "0 < ?cmp a b \<and> 0 < ?cmp b c \<longrightarrow> 0 < ?cmp a c"
      unfolding e by (cases d) (auto split: if_splits)
  qed
qed




subsection \<open>Consistent comparators\<close>


lemma consistent_less_flip:
  assumes "consistent_comparator cmp xs" "a \<in> set xs" "b \<in> set xs" "cmp a b < 0"
  shows "0 < cmp b a"
proof -
  have aa: "cmp a a = 0" using assms unfolding consistent_comparator_def by blast
  have "\<not> cmp b a < 0"
  proof
    assume "cmp b a < 0"
    with assms have "cmp a a < 0" unfolding consistent_comparator_def by blast
    with aa show False by simp
  qed
  moreover have "cmp b a \<noteq> 0"
  proof
    assume "cmp b a = 0"
    with assms have "cmp a b = 0" unfolding consistent_comparator_def by blast
    with assms show False by simp
  qed
  ultimately show ?thesis by linarith
qed





lemma sort_outcome_stable:
  assumes "sort_outcome cmp xs ys" "consistent_comparator cmp xs"
    and "\<forall>a \<in> set xs. \<forall>b \<in> set xs. P a \<longrightarrow> P b \<longrightarrow> cmp a b = 0"
  shows "filter P ys = filter P xs"
  using assms unfolding sort_outcome_def by blast

lemma sort_outcome_unique_keyed:
  fixes f :: "jsobject \<Rightarrow> 'k::linorder"
  assumes cmp: "\<forall>a \<in> set xs. \<forall>b \<in> set xs. comparator \<lparr>key = k, direction = d\<rparr> a b =
           (if f a < f b then (if d = Asc then - 1 else 1)
            else if f b < f a then (if d = Asc then 1 else - 1) else 0)"
    and out: "sort_outcome (comparator \<lparr>key = k, direction = d\<rparr>) xs ys"
  shows "ys = stable_sort_by f d xs"
proof -
  let ?cmp = "comparator \<lparr>key = k, direction = d\<rparr>"
  have con: "consistent_comparator ?cmp xs" using cmp by (rule comparator_keyed)
  from out have m: "mset ys = mset xs" by (simp add: sort_outcome_def)
  then have sub: "set ys = set xs" by (rule mset_eq_setD)
  from out con have srt: "sorted_wrt (\<lambda>a b. ?cmp a b \<le> 0) ys"
    by (simp add: sort_outcome_def)
  have st: "filter (\<lambda>x. f v = f x) ys = filter (\<lambda>x. f v = f x) xs" for v
    using out con
  proof (rule sort_outcome_stable)
    show "\<forall>a\<in>set xs. \<forall>b\<in>set xs. f v = f a \<longrightarrow> f v = f b \<longrightarrow> ?cmp a b = 0"
      using cmp by auto
  qed
  show ?thesis
  proof (cases d)
    case Asc
    have "sorted_wrt (\<lambda>a b. f a \<le> f b) ys"
      using srt
    proof (rule sorted_wrt_mono_rel [rotated])
      fix a b assume "a \<in> set ys" "b \<in> set ys" "?cmp a b \<le> 0"
      with cmp sub Asc show "f a \<le> f b" by (auto simp: not_less split: if_splits)
    qed
    then have "sorted (map f ys)" by (simp add: sorted_wrt_map)
    with m st have "sort_key f xs = ys" by (intro properties_for_sort_key) auto
    with Asc show ?thesis by (simp add: stable_sort_by_def)
  next
    case Desc
    have "sorted_wrt (\<lambda>a b. f b \<le> f a) ys"
      using srt
    proof (rule sorted_wrt_mono_rel [rotated])
      fix a b assume "a \<in> set ys" "b \<in> set ys" "?cmp a b \<le> 0"
      with cmp sub Desc show "f b \<le> f a" by (auto simp: not_less split: if_splits)
    qed
    then have s: "sorted (map f (rev ys))"
      by (simp add: sorted_wrt_rev sorted_wrt_map flip: rev_map)
    have m': "mset (rev ys) = mset (rev xs)" using m by simp
    have st': "filter (\<lambda>x. f v = f x) (rev ys) = filter (\<lambda>x. f v = f x) (rev xs)" for v
      using st [of v] by (simp add: rev_filter [symmetric])
    have "sort_key f (rev xs) = rev ys"
      by (rule properties_for_sort_key [OF m' st' s])
    then have "ys = rev (sort_key f (rev xs))" by simp
    with Desc show ?thesis by (simp add: stable_sort_by_def)
  qed
qed

text \<open>
  On a column of numbers or of strings the sort can leave one arrangement only, the stable
  sort by the key.
\<close>

lemma sort_outcome_number_column:
  assumes "number_column k xs" "sort_outcome (comparator \<lparr>key = k, direction = d\<rparr>) xs ys"
  shows "ys = stable_sort_by (number_key k) d xs"
proof (rule sort_outcome_unique_keyed [OF _ assms(2)])
  show "\<forall>a\<in>set xs. \<forall>b\<in>set xs. comparator \<lparr>key = k, direction = d\<rparr> a b =
           (if number_key k a < number_key k b then (if d = Asc then - 1 else 1)
            else if number_key k b < number_key k a then (if d = Asc then 1 else - 1) else 0)"
  proof (intro ballI)
    fix a b assume "a \<in> set xs" "b \<in> set xs"
    with assms(1) have "get_field a k = JNumber (number_key k a)"
      "get_field b k = JNumber (number_key k b)"
      by (auto dest: number_columnD)
    then show "comparator \<lparr>key = k, direction = d\<rparr> a b =
           (if number_key k a < number_key k b then (if d = Asc then - 1 else 1)
            else if number_key k b < number_key k a then (if d = Asc then 1 else - 1) else 0)"
      by (rule comparator_number_values)
  qed
qed

lemma sort_outcome_string_column:
  assumes "string_column k xs" "sort_outcome (comparator \<lparr>key = k, direction = d\<rparr>) xs ys"
  shows "ys = stable_sort_by (string_key k) d xs"
proof (rule sort_outcome_unique_keyed [OF _ assms(2)])
  show "\<forall>a\<in>set xs. \<forall>b\<in>set xs. comparator \<lparr>key = k, direction = d\<rparr> a b =
           (if string_key k a < string_key k b then (if d = Asc then - 1 else 1)
            else if string_key k b < string_key k a then (if d = Asc then 1 else - 1) else 0)"
  proof (intro ballI)
    fix a b assume "a \<in> set xs" "b \<in> set xs"
    with assms(1) have "get_field a k = JString (string_key k a)"
      "get_field b k = JString (string_key k b)"
      by (auto dest: string_columnD)
    then show "comparator \<lparr>key = k, direction = d\<rparr> a b =
           (if string_key k a < string_key k b then (if d = Asc then - 1 else 1)
            else if string_key k b < string_key k a then (if d = Asc then 1 else - 1) else 0)"
      by (rule comparator_string_values)
  qed
qed

subsection \<open>The visible page\<close>




subsection \<open>Filtering\<close>

text \<open>
  C2, amended. With the default flags the filtered records are, in their original order, the
  records of which the lower-cased string form of some field value contains the lower-cased
  search text; a record is in the result exactly if it is in the collection and has such a
  field. With the empty search text the result is the records that have at least one field,
  in their original order: the whole collection when no record is without fields.
\<close>

theorem C2_filter_correct:
  "filteredData (defaultProps records) st = filter (search_hit (searchTerm st)) records
   \<and> (r \<in> set (filteredData (defaultProps records) st)
        \<longleftrightarrow> r \<in> set records \<and>
            (\<exists>v \<in> set (object_values r).
               sublist (toLowerCase (searchTerm st)) (toLowerCase (to_string v))))
   \<and> filteredData (defaultProps records) (st\<lparr>searchTerm := []\<rparr>)
        = filter (\<lambda>r. object_values r \<noteq> []) records
   \<and> ((\<forall>r \<in> set records. object_values r \<noteq> [])
        \<longrightarrow> filteredData (defaultProps records) (st\<lparr>searchTerm := []\<rparr>) = records)"
proof -
  have a: "filteredData (defaultProps records) st = filter (search_hit (searchTerm st)) records"
    by (rule filteredData_default)
  have b: "filteredData (defaultProps records) (st\<lparr>searchTerm := []\<rparr>)
        = filter (\<lambda>r. object_values r \<noteq> []) records"
    by (simp add: filteredData_default search_hit_empty cong: filter_cong)
  have c: "(\<forall>r \<in> set records. object_values r \<noteq> [])
        \<longrightarrow> filter (\<lambda>r. object_values r \<noteq> []) records = records"
    by (simp add: filter_id_conv)
  show ?thesis
    unfolding b using a c by (simp add: search_hit_def)
qed

text \<open>
  As first stated, C2 lets the empty search text return the whole collection. A record
  without fields has no value for \<^verbatim>\<open>some\<close> to accept, so the collection \<^verbatim>\<open>[{}]\<close> is
  filtered to the empty array.
\<close>

theorem C2_counterexample:
  "filteredData (defaultProps [[]]) (initial_state\<lparr>searchTerm := []\<rparr>) \<noteq> [[]]"
  by (simp add: filteredData_def defaultProps_def matches_search_def object_values_def)

theorem C2_witness:
  "filteredData (defaultProps (map locomotive [1..3])) (initial_state\<lparr>searchTerm := []\<rparr>)
     = map locomotive [1..3]
   \<and> filteredData (defaultProps (map locomotive [1..3])) (initial_state\<lparr>searchTerm := ''marc 7802''\<rparr>)
     = [locomotive 2]"
proof -
  have h: "\<forall>r \<in> set (map locomotive [1..3]). object_values r \<noteq> []"
    by (simp add: locomotive_def object_values_def)
  have "filteredData (defaultProps (map locomotive [1..3])) (initial_state\<lparr>searchTerm := []\<rparr>)
     = map locomotive [1..3]"
    using h C2_filter_correct [of "map locomotive [1..3]" initial_state] by blast
  moreover have "filteredData (defaultProps (map locomotive [1..3])) (initial_state\<lparr>searchTerm := ''marc 7802''\<rparr>)
     = [locomotive 2]"
    by code_simp
  ultimately show ?thesis by simp
qed

subsection \<open>Pagination\<close>

lemma concat_pages: "concat (map (\<lambda>i. take n (drop (i * n) xs)) [0..<m]) = take (m * n) xs"
proof (induction m)
  case 0
  then show ?case by simp
next
  case (Suc m)
  have "take (m * n) xs @ take n (drop (m * n) xs) = take (m * n + n) xs"
    by (simp add: take_add)
  with Suc show ?case by (simp add: add.commute)
qed

lemma math_ceil_div_ceiling:
  "d \<noteq> 0 \<Longrightarrow> math_ceil_div n d = Some \<lceil>real_of_int n / real_of_int d\<rceil>"
proof -
  have "\<lceil>real_of_int n / real_of_int d\<rceil> = - \<lfloor>real_of_int (- n) / real_of_int d\<rfloor>"
    by (simp add: ceiling_def)
  also have "\<dots> = - ((- n) div d)"
    by (simp only: floor_divide_of_int_eq)
  finally show "d \<noteq> 0 \<Longrightarrow> math_ceil_div n d = Some \<lceil>real_of_int n / real_of_int d\<rceil>"
    by (simp add: math_ceil_div_def)
qed

lemma page_count_covers:
  assumes "0 < n"
  shows "\<exists>m. \<lceil>real len / real n\<rceil> = int m \<and> len \<le> m * n"
proof -
  let ?c = "\<lceil>real len / real n\<rceil>"
  have "0 \<le> real len / real n" by simp
  then have "- 1 < real len / real n" by linarith
  then have nonneg: "0 \<le> ?c" by (simp only: zero_le_ceiling)
  have pos: "0 < real n" using assms by simp
  have "real len / real n \<le> of_int ?c" by (rule le_of_int_ceiling)
  then have "real len \<le> of_int ?c * real n" by (simp only: pos_divide_le_eq [OF pos])
  also have "of_int ?c * real n = real (nat ?c * n)" using nonneg by simp
  finally have "len \<le> nat ?c * n" by (simp only: of_nat_le_iff)
  with nonneg show ?thesis by (intro exI [of _ "nat ?c"]) simp
qed

lemma filteredData_frame:
  "searchTerm st' = searchTerm st \<Longrightarrow> filteredData P st' = filteredData P st"
  by (simp add: filteredData_def)

lemma sortedData_frame:
  "searchTerm st' = searchTerm st \<Longrightarrow> sortConfig st' = sortConfig st
   \<Longrightarrow> sortedData P st' = sortedData P st"
  by (simp add: sortedData_def filteredData_frame [of st' st] split: option.split)

text \<open>
  C4. For a positive page size \<open>n\<close>, the page count of the pagination bar is the ceiling of
  the filtered count over \<open>n\<close>, and the visible pages of the page indices below the page
  count, one after the other, are the filtered and sorted sequence. When no record passes
  the filter the page count is 0 and the visible page is empty.
\<close>

theorem C4_pagination_complete:
  assumes "0 < n"
  shows "totalPages (defaultProps records) (st\<lparr>rowsPerPage := int n\<rparr>)
           = Some \<lceil>real (length (filteredData (defaultProps records) st)) / real n\<rceil>
       \<and> (\<exists>m. totalPages (defaultProps records) (st\<lparr>rowsPerPage := int n\<rparr>) = Some (int m)
              \<and> concat (map (\<lambda>i. paginatedData (defaultProps records)
                                    (st\<lparr>rowsPerPage := int n, page := int i\<rparr>)) [0..<m])
                  = sortedData (defaultProps records) st)
       \<and> (filteredData (defaultProps records) st = []
            \<longrightarrow> totalPages (defaultProps records) (st\<lparr>rowsPerPage := int n\<rparr>) = Some 0
                \<and> paginatedData (defaultProps records) (st\<lparr>rowsPerPage := int n\<rparr>) = [])"
proof -
  let ?P = "defaultProps records"
  let ?st = "st\<lparr>rowsPerPage := int n\<rparr>"
  have fd: "\<And>f. filteredData ?P (st\<lparr>rowsPerPage := int n, page := f\<rparr>) = filteredData ?P st"
    "filteredData ?P ?st = filteredData ?P st"
    by (rule filteredData_frame, simp)+
  have sd: "\<And>f. sortedData ?P (st\<lparr>rowsPerPage := int n, page := f\<rparr>) = sortedData ?P st"
    "sortedData ?P ?st = sortedData ?P st"
    by (rule sortedData_frame, simp, simp)+
  have len: "length (sortedData ?P st) = length (filteredData ?P st)"
    by (simp add: sortedData_def length_array_sort split: option.split)
  have tp: "totalPages ?P ?st = Some \<lceil>real (length (filteredData ?P st)) / real n\<rceil>"
    using assms math_ceil_div_ceiling [of "int n" "int (length (filteredData ?P st))"]
    by (simp add: totalPages_def fd)
  obtain m where m: "\<lceil>real (length (filteredData ?P st)) / real n\<rceil> = int m"
    "length (filteredData ?P st) \<le> m * n"
    using page_count_covers [OF assms] by blast
  have pg: "\<And>i. paginatedData ?P (st\<lparr>rowsPerPage := int n, page := int i\<rparr>)
               = take n (drop (i * n) (sortedData ?P st))"
    by (simp add: paginatedData_default sd array_slice_page del: of_nat_mult)
  have "concat (map (\<lambda>i. paginatedData ?P (st\<lparr>rowsPerPage := int n, page := int i\<rparr>)) [0..<m])
          = take (m * n) (sortedData ?P st)"
    by (simp only: pg concat_pages)
  also have "\<dots> = sortedData ?P st" using m(2) len by simp
  finally have cc: "concat (map (\<lambda>i. paginatedData ?P (st\<lparr>rowsPerPage := int n, page := int i\<rparr>)) [0..<m])
          = sortedData ?P st" .
  have e: "filteredData ?P st = [] \<longrightarrow> totalPages ?P ?st = Some 0 \<and> paginatedData ?P ?st = []"
  proof
    assume emp: "filteredData ?P st = []"
    then have "sortedData ?P st = []" using len by simp
    then have "paginatedData ?P ?st = []"
      by (simp add: paginatedData_default sd array_slice_def)
    with emp tp show "totalPages ?P ?st = Some 0 \<and> paginatedData ?P ?st = []" by simp
  qed
  from tp m(1) cc e show ?thesis by auto
qed

theorem C4_witness:
  "totalPages (defaultProps (map locomotive [1..11])) (initial_state\<lparr>rowsPerPage := 5\<rparr>) = Some 3
   \<and> concat (map (\<lambda>i. paginatedData (defaultProps (map locomotive [1..11]))
                        (initial_state\<lparr>rowsPerPage := 5, page := int i\<rparr>)) [0..<3])
       = sortedData (defaultProps (map locomotive [1..11])) initial_state
   \<and> totalPages (defaultProps []) (initial_state\<lparr>rowsPerPage := 5\<rparr>) = Some 0
   \<and> paginatedData (defaultProps []) (initial_state\<lparr>rowsPerPage := 5\<rparr>) = []"
proof -
  let ?P = "defaultProps (map locomotive [1..11])"
  have pos: "0 < (5::nat)" by simp
  have tp: "totalPages ?P (initial_state\<lparr>rowsPerPage := 5\<rparr>) = Some 3"
    by code_simp
  have "\<exists>m. totalPages ?P (initial_state\<lparr>rowsPerPage := 5\<rparr>) = Some (int m)
       \<and> concat (map (\<lambda>i. paginatedData ?P (initial_state\<lparr>rowsPerPage := 5, page := int i\<rparr>)) [0..<m])
       = sortedData ?P initial_state"
    using C4_pagination_complete [OF pos, of "map locomotive [1..11]" initial_state]
    unfolding of_nat_numeral by (rule conjunct1 [OF conjunct2])
  then obtain m where m: "totalPages ?P (initial_state\<lparr>rowsPerPage := 5\<rparr>) = Some (int m)"
    and cc: "concat (map (\<lambda>i. paginatedData ?P (initial_state\<lparr>rowsPerPage := 5, page := int i\<rparr>)) [0..<m])
       = sortedData ?P initial_state"
    by blast
  from m tp have "m = 3" by simp
  with cc have c3: "concat (map (\<lambda>i. paginatedData ?P (initial_state\<lparr>rowsPerPage := 5, page := int i\<rparr>)) [0..<3])
       = sortedData ?P initial_state" by simp
  have emp: "filteredData (defaultProps []) initial_state = []"
    by (simp add: filteredData_def defaultProps_def)
  from C4_pagination_complete [OF pos, of "[]" initial_state] emp
  have "totalPages (defaultProps []) (initial_state\<lparr>rowsPerPage := 5\<rparr>) = Some 0
   \<and> paginatedData (defaultProps []) (initial_state\<lparr>rowsPerPage := 5\<rparr>) = []"
    by simp
  with tp c3 show ?thesis by simp
qed

subsection \<open>Sorting\<close>




text \<open>
  C10. When no record has a field named by the sort key, the comparator returns 0 for every
  pair of records and the sorted sequence is the filtered sequence.
\<close>

theorem C10_absent_sort_key:
  assumes "\<forall>r \<in> set (data props). k \<notin> fst ` set r"
  shows "sortedData props (st\<lparr>sortConfig := Some \<lparr>key = k, direction = d\<rparr>\<rparr>)
           = filteredData props st
       \<and> (\<forall>a \<in> set (data props). \<forall>b \<in> set (data props).
              comparator \<lparr>key = k, direction = d\<rparr> a b = 0)"
proof -
  let ?cfg = "\<lparr>key = k, direction = d\<rparr>"
  let ?st = "st\<lparr>sortConfig := Some ?cfg\<rparr>"
  have fd: "filteredData props ?st = filteredData props st"
    by (rule filteredData_frame) simp
  have sub: "set (filteredData props st) \<subseteq> set (data props)"
    by (auto simp: filteredData_def)
  have z: "\<forall>a \<in> set (data props). \<forall>b \<in> set (data props). comparator ?cfg a b = 0"
    using assms by (simp add: comparator_tie get_field_absent)
  have "filter (\<lambda>r. True) (array_sort (comparator ?cfg) (filteredData props st))
        = filter (\<lambda>r. True) (filteredData props st)"
    using z sub by (intro array_sort_stable) blast
  then have "sortedData props ?st = filteredData props st"
    by (simp add: sortedData_def fd)
  with z show ?thesis by simp
qed

theorem C10_witness:
  "sortedData (defaultProps (map geo_event [1..3]))
     (initial_state\<lparr>sortConfig := Some \<lparr>key = ''coordinates'', direction = Desc\<rparr>\<rparr>)
   = map geo_event [1..3]"
proof -
  have h: "\<forall>r \<in> set (data (defaultProps (map geo_event [1..3]))). ''coordinates'' \<notin> fst ` set r"
    by (simp add: defaultProps_def geo_event_def)
  have "filteredData (defaultProps (map geo_event [1..3])) initial_state = map geo_event [1..3]"
    by code_simp
  with C10_absent_sort_key [OF h, where st = initial_state and d = Desc] show ?thesis by simp
qed

subsection \<open>Event handlers\<close>

text \<open>Without the flag \<^verbatim>\<open>sortable\<close> the handler returns at once.\<close>

lemma handleSort_not_sortable: "\<not> sortable props \<Longrightarrow> handleSort props st k = st"
  by (simp add: handleSort_def)

text \<open>
  C6. A click on the column that is the current sort key turns an ascending sort into a
  descending one and a descending sort into an ascending one; a click on any other column,
  or when nothing is sorted yet, sorts by that column, ascending. The page index, the page
  size and the search term stay as they are.
\<close>

theorem C6_handleSort:
  "(sortConfig st = Some \<lparr>key = k, direction = Asc\<rparr>
      \<longrightarrow> sortConfig (handleSort (defaultProps records) st k) = Some \<lparr>key = k, direction = Desc\<rparr>)
   \<and> (sortConfig st = Some \<lparr>key = k, direction = Desc\<rparr>
      \<longrightarrow> sortConfig (handleSort (defaultProps records) st k) = Some \<lparr>key = k, direction = Asc\<rparr>)
   \<and> ((\<forall>c. sortConfig st = Some c \<longrightarrow> key c \<noteq> k)
      \<longrightarrow> sortConfig (handleSort (defaultProps records) st k) = Some \<lparr>key = k, direction = Asc\<rparr>)
   \<and> page (handleSort (defaultProps records) st k) = page st
   \<and> rowsPerPage (handleSort (defaultProps records) st k) = rowsPerPage st
   \<and> searchTerm (handleSort (defaultProps records) st k) = searchTerm st"
  by (cases "sortConfig st") (auto simp: handleSort_def defaultProps_def)

theorem C6_witness:
  "sortConfig (handleSort (defaultProps allLocomotives) (initial_state\<lparr>page := 3\<rparr>)
      ''ptcActivePercentage'') = Some \<lparr>key = ''ptcActivePercentage'', direction = Asc\<rparr>
   \<and> sortConfig (handleSort (defaultProps allLocomotives)
        (initial_state\<lparr>page := 3, sortConfig := Some \<lparr>key = ''ptcActivePercentage'', direction = Asc\<rparr>\<rparr>)
        ''ptcActivePercentage'') = Some \<lparr>key = ''ptcActivePercentage'', direction = Desc\<rparr>
   \<and> sortConfig (handleSort (defaultProps allLocomotives)
        (initial_state\<lparr>page := 3, sortConfig := Some \<lparr>key = ''ptcActivePercentage'', direction = Desc\<rparr>\<rparr>)
        ''ptcActivePercentage'') = Some \<lparr>key = ''ptcActivePercentage'', direction = Asc\<rparr>
   \<and> page (handleSort (defaultProps allLocomotives)
        (initial_state\<lparr>page := 3, sortConfig := Some \<lparr>key = ''ptcActivePercentage'', direction = Asc\<rparr>\<rparr>)
        ''ptcActivePercentage'') = 3"
proof -
  let ?k = "''ptcActivePercentage''"
  let ?P = "defaultProps allLocomotives"
  have a: "\<forall>c. sortConfig (initial_state\<lparr>page := 3\<rparr>) = Some c \<longrightarrow> key c \<noteq> ?k"
    by (simp add: initial_state_def)
  have 1: "sortConfig (handleSort ?P (initial_state\<lparr>page := 3\<rparr>) ?k) = Some \<lparr>key = ?k, direction = Asc\<rparr>"
    using a C6_handleSort [of "initial_state\<lparr>page := 3\<rparr>" ?k allLocomotives] by blast
  have 2: "sortConfig (handleSort ?P
        (initial_state\<lparr>page := 3, sortConfig := Some \<lparr>key = ?k, direction = Asc\<rparr>\<rparr>) ?k)
        = Some \<lparr>key = ?k, direction = Desc\<rparr>
      \<and> page (handleSort ?P
        (initial_state\<lparr>page := 3, sortConfig := Some \<lparr>key = ?k, direction = Asc\<rparr>\<rparr>) ?k) = 3"
    using C6_handleSort [of "initial_state\<lparr>page := 3, sortConfig := Some \<lparr>key = ?k, direction = Asc\<rparr>\<rparr>" ?k allLocomotives]
    by simp
  have 3: "sortConfig (handleSort ?P
        (initial_state\<lparr>page := 3, sortConfig := Some \<lparr>key = ?k, direction = Desc\<rparr>\<rparr>) ?k)
        = Some \<lparr>key = ?k, direction = Asc\<rparr>"
    using C6_handleSort [of "initial_state\<lparr>page := 3, sortConfig := Some \<lparr>key = ?k, direction = Desc\<rparr>\<rparr>" ?k allLocomotives]
    by simp
  from 1 2 3 show ?thesis by simp
qed

text \<open>
  C7, amended. The rows-per-page handler checks nothing: for every view state and every
  number, positive or not, it stores the number as the page size and sets the page index
  to 0, leaving search term and sort configuration as they are. The selector offers no
  size that is zero or negative.
\<close>

theorem C7_rows_per_page_unchecked:
  "handleRowsPerPageChange st n = st\<lparr>rowsPerPage := n, page := 0\<rparr>
   \<and> rowsPerPage (handleRowsPerPageChange st n) = n
   \<and> page (handleRowsPerPageChange st n) = 0
   \<and> searchTerm (handleRowsPerPageChange st n) = searchTerm st
   \<and> sortConfig (handleRowsPerPageChange st n) = sortConfig st
   \<and> filter (\<lambda>v. v \<le> 0) rowsPerPageOptions = []"
  by (simp add: handleRowsPerPageChange_def rowsPerPageOptions_def)

text \<open>
  As first stated, C7 has a size of 0 rejected and the state unchanged. The handler
  stores 0 and resets the page index.
\<close>

theorem C7_counterexample:
  "handleRowsPerPageChange (initial_state\<lparr>page := 3\<rparr>) 0
     = \<lparr>page = 0, rowsPerPage = 0, searchTerm = [], sortConfig = None\<rparr>
   \<and> handleRowsPerPageChange (initial_state\<lparr>page := 3\<rparr>) 0 \<noteq> initial_state\<lparr>page := 3\<rparr>"
  by (simp add: handleRowsPerPageChange_def initial_state_def)

lemma handleSearchChange_frame:
  "page (handleSearchChange st text) = page st
   \<and> rowsPerPage (handleSearchChange st text) = rowsPerPage st
   \<and> sortConfig (handleSearchChange st text) = sortConfig st
   \<and> searchTerm (handleSearchChange st text) = text"
  by (simp add: handleSearchChange_def)

text \<open>
  C3. The search handler replaces the search term and nothing else. On the last page of the
  48 locomotives, ten to a page, typing \<^verbatim>\<open>7805\<close> leaves the page index at 4 while one
  record and one page remain: the table shows an empty page.
\<close>

theorem C3_search_keeps_stale_page:
  "page (handleSearchChange (initial_state\<lparr>page := 4\<rparr>) ''7805'') = 4
   \<and> totalPages (defaultProps allLocomotives) (initial_state\<lparr>page := 4\<rparr>) = Some 5
   \<and> paginatedData (defaultProps allLocomotives) (initial_state\<lparr>page := 4\<rparr>)
       = map locomotive [41..48]
   \<and> filteredData (defaultProps allLocomotives)
        (handleSearchChange (initial_state\<lparr>page := 4\<rparr>) ''7805'') = [locomotive 5]
   \<and> totalPages (defaultProps allLocomotives)
        (handleSearchChange (initial_state\<lparr>page := 4\<rparr>) ''7805'') = Some 1
   \<and> paginatedData (defaultProps allLocomotives)
        (handleSearchChange (initial_state\<lparr>page := 4\<rparr>) ''7805'') = []"
  by code_simp

subsection \<open>Renders leave the input array as it is\<close>

lemma store_sort_fresh:
  "store_sort (h @ [xs]) (length h) cmp = (h @ [array_sort cmp xs], length h)"
  by (simp add: store_sort_def)

text \<open>Called on an array that is already in the store, the sort overwrites it.\<close>

lemma store_sort_overwrites:
  "a < length h \<Longrightarrow> fst (store_sort h a cmp) ! a = array_sort cmp (h ! a)"
  by (simp add: store_sort_def)

lemma render_extends:
  assumes "d < length h"
  shows "\<exists>ext. fst (render props st h d) = h @ ext
           \<and> (h @ ext) ! snd (render props st h d) = paginatedData (props\<lparr>data := h ! d\<rparr>) st"
proof (cases "sortConfig st")
  case None
  with assms show ?thesis
    by (simp add: render_def store_filter_def store_slice_def alloc_def
        paginatedData_def sortedData_def filteredData_def nth_append)
next
  case (Some cfg)
  with assms show ?thesis
    by (simp add: render_def store_filter_def store_slice_def store_spread_def alloc_def
        store_sort_fresh paginatedData_def sortedData_def filteredData_def nth_append)
qed

lemma render_prefix: "d < length h \<Longrightarrow> prefix h (fst (render props st h d))"
  using render_extends [of d h props st] by (auto simp: prefix_def)

lemma run_events_prefix:
  "d < length h \<Longrightarrow> prefix h (snd (run_events props d (st, h) evs))"
proof (induction evs arbitrary: st h)
  case Nil
  then show ?case by simp
next
  case (Cons ev evs)
  let ?st = "handle_event props st ev"
  let ?h = "fst (render props ?st h d)"
  have p: "prefix h ?h" using Cons.prems by (rule render_prefix)
  then have "d < length ?h" using Cons.prems by (auto simp: prefix_def)
  then have "prefix ?h (snd (run_events props d (?st, ?h) evs))" by (rule Cons.IH)
  with p have "prefix h (snd (run_events props d (?st, ?h) evs))"
    by (rule prefix_order.order_trans)
  then show ?case by (simp add: Let_def)
qed

text \<open>
  C9. Whatever the flags, a render and a session of any search, sort, page and page-size
  operations leave every array that was in the store before, the \<^verbatim>\<open>data\<close> array among
  them, with the same elements in the same order; and the array a render returns is the
  visible page of the component.
\<close>

theorem C9_input_array_untouched:
  assumes "d < length h"
  shows "take (length h) (snd (session props h d evs)) = h
       \<and> snd (session props h d evs) ! d = h ! d
       \<and> take (length h) (fst (render props st h d)) = h
       \<and> fst (render props st h d) ! d = h ! d
       \<and> fst (render props st h d) ! snd (render props st h d)
           = paginatedData (props\<lparr>data := h ! d\<rparr>) st"
proof -
  let ?h0 = "fst (render props initial_state h d)"
  have p0: "prefix h ?h0" using assms by (rule render_prefix)
  then have "d < length ?h0" using assms by (auto simp: prefix_def)
  then have "prefix ?h0 (snd (session props h d evs))"
    unfolding session_def by (rule run_events_prefix)
  with p0 have "prefix h (snd (session props h d evs))"
    by (rule prefix_order.order_trans)
  then obtain e1 where e1: "snd (session props h d evs) = h @ e1" by (auto simp: prefix_def)
  obtain e2 where e2: "fst (render props st h d) = h @ e2"
    and r: "(h @ e2) ! snd (render props st h d) = paginatedData (props\<lparr>data := h ! d\<rparr>) st"
    using render_extends [OF assms] by blast
  from e1 e2 r assms show ?thesis by (simp add: nth_append)
qed

theorem C9_witness:
  "snd (session (defaultProps (map locomotive [1..3])) [map locomotive [1..3]] 0
          [HeaderClick ''runs'', SearchInput ''780'', HeaderClick ''runs'', RowsSelect 5, PageButton 0]) ! 0
     = map locomotive [1..3]"
proof -
  have h: "(0::nat) < length [map locomotive [1..3]]" by simp
  from C9_input_array_untouched [OF h] show ?thesis by simp
qed

subsection \<open>Distributions\<close>

lemma length_filter_disjoint:
  "(\<And>x. x \<in> set xs \<Longrightarrow> \<not> (P x \<and> Q x))
   \<Longrightarrow> length (filter P xs) + length (filter Q xs) = length (filter (\<lambda>x. P x \<or> Q x) xs)"
  by (induction xs) auto

lemma bucket_counts_sum:
  "distinct ls \<Longrightarrow>
   sum_list (map (\<lambda>l. length (filter (\<lambda>r. f r = l) rs)) ls)
     = length (filter (\<lambda>r. f r \<in> set ls) rs)"
proof (induction ls)
  case Nil
  then show ?case by simp
next
  case (Cons l ls)
  have "length (filter (\<lambda>r. f r = l) rs) + length (filter (\<lambda>r. f r \<in> set ls) rs)
        = length (filter (\<lambda>r. f r = l \<or> f r \<in> set ls) rs)"
    using Cons.prems by (intro length_filter_disjoint) auto
  with Cons show ?case by (simp add: disj_commute eq_commute)
qed

text \<open>
  C8, amended. When the bucket order lists every label once and the classifier maps every
  record to one of its labels, \<^verbatim>\<open>distribute\<close> returns the buckets in bucket order and
  their counts add up to the number of records.
\<close>

theorem C8_distribute_total:
  assumes "distinct bucketOrder"
    and "\<forall>r \<in> set records. classify r \<in> set bucketOrder"
  shows "\<exists>bs. distribute records classify bucketOrder = Inr bs
            \<and> map label bs = bucketOrder
            \<and> sum_list (map count bs) = length records"
proof -
  have none: "filter (\<lambda>r. classify r \<notin> set bucketOrder) records = []"
    using assms(2) by (simp add: filter_empty_conv)
  have all: "filter (\<lambda>r. classify r \<in> set bucketOrder) records = records"
    using assms(2) by (simp add: filter_id_conv)
  let ?bs = "map (\<lambda>l. \<lparr>label = l, count = length (filter (\<lambda>r. classify r = l) records)\<rparr>) bucketOrder"
  have "distribute records classify bucketOrder = Inr ?bs"
    by (simp add: distribute_def none)
  moreover have "map label ?bs = bucketOrder" by (simp add: comp_def)
  moreover have "sum_list (map count ?bs) = length records"
    using bucket_counts_sum [OF assms(1), of classify records] by (simp add: comp_def all)
  ultimately show ?thesis by blast
qed

theorem C8_witness:
  "\<exists>bs. distribute allLocomotives (\<lambda>r. to_string (get_field r ''runs'')) [''1'', ''2'', ''3''] = Inr bs
      \<and> map label bs = [''1'', ''2'', ''3'']
      \<and> sum_list (map count bs) = 48"
proof -
  have d: "distinct [''1'', ''2'', ''3'']" by simp
  have t: "\<forall>r \<in> set allLocomotives. to_string (get_field r ''runs'') \<in> set [''1'', ''2'', ''3'']"
    by code_simp
  have l: "length allLocomotives = 48" by code_simp
  from C8_distribute_total [OF d t] l show ?thesis by simp
qed

text \<open>
  As first stated, C8 asks only for a classifier that is total over the bucket order. A
  bucket order that lists a label twice counts its records twice: one record gives the
  counts 1 and 1.
\<close>

theorem C8_counterexample:
  "distribute [0 :: nat] (\<lambda>r. ''a'') [''a'', ''a'']
     = Inr [\<lparr>label = ''a'', count = 1\<rparr>, \<lparr>label = ''a'', count = 1\<rparr>]
   \<and> sum_list (map count [\<lparr>label = ''a'', count = 1\<rparr>, \<lparr>label = ''a'', count = 1\<rparr>])
       \<noteq> length [0 :: nat]"
  by (simp add: distribute_def)

end
